theory Spec2Isabelle
  imports Complex_Main
begin

section \<open>The Nortek DVL driver (Sensors/NortekDVL/Driver.hpp)\<close>

text \<open>
  The driver talks to the instrument over a TCP socket with line-terminated text commands.
  Its state is the three members \<open>m_salinity\<close>, \<open>m_sampling_rate\<close> and \<open>m_cmd_mode\<close>;
  everything else it does is a call to a collaborator: the socket, a timer, a delay, the
  parent task's \<open>spew\<close> sink and the clock. The embedding passes the state explicitly and
  keeps the calls to the collaborators in a log, in the order in which they are made.
  The driver itself throws nothing and catches nothing; an exception thrown by the socket
  would leave every function below at once, and the runs considered here are those in
  which the socket throws none. One step of the driver has no defined behaviour: the
  conversion of the read buffer to a string when all of its 256 bytes are filled and none
  is NUL. The scan marks it as an outcome of its own.
\<close>

subsection \<open>Floating-point values\<close>

text \<open>
  A \<open>float\<close> or \<open>double\<close> is a finite value, an infinity or a NaN. Finite values are
  kept as exact rationals (every finite double is one). \<open>Fin 0\<close> is the positive zero;
  the negative zero is a value of its own, \<open>Neg_zero\<close>, which compares as zero does and
  is printed with its sign. The payload and the sign of a NaN are not told apart. The
  only operations the driver applies to such values are comparisons with constants and
  \<open>%f\<close> formatting. As in IEEE 754, a comparison with a NaN is false.
\<close>

datatype fp = NaN | Neg_inf | Neg_zero | Fin rat | Pos_inf

fun fp_lt :: "fp \<Rightarrow> rat \<Rightarrow> bool" where
  "fp_lt NaN c = False"
| "fp_lt Neg_inf c = True"
| "fp_lt Neg_zero c = (0 < c)"
| "fp_lt (Fin r) c = (r < c)"
| "fp_lt Pos_inf c = False"

fun fp_gt :: "fp \<Rightarrow> rat \<Rightarrow> bool" where
  "fp_gt NaN c = False"
| "fp_gt Neg_inf c = False"
| "fp_gt Neg_zero c = (c < 0)"
| "fp_gt (Fin r) c = (c < r)"
| "fp_gt Pos_inf c = True"

text \<open>The implicit conversion of a floating-point argument to \<open>bool\<close>: non-zero is true.\<close>

definition bool_of_double :: "rat \<Rightarrow> bool" where
  "bool_of_double x = (x \<noteq> 0)"

subsection \<open>Formatting and string helpers\<close>

definition CRLF :: string where
  "CRLF = [CHR 0x0D, CHR 0x0A]"

definition digit_char :: "nat \<Rightarrow> char" where
  "digit_char d = ''0123456789'' ! d"

fun fmt_u :: "nat \<Rightarrow> string" where
  "fmt_u n = (if n < 10 then [digit_char n] else fmt_u (n div 10) @ [digit_char (n mod 10)])"

declare fmt_u.simps [simp del]

text \<open>
  Modelled from the spec: \<open>String::str\<close> (printf-style formatting) is not among the sources.
  \<open>fmt_d\<close> is the conversion \<open>%d\<close>; \<open>fmt_f\<close> is the conversion \<open>%f\<close>: six decimals,
  the exact value rounded to nearest, ties to even.
\<close>

definition fmt_d :: "int \<Rightarrow> string" where
  "fmt_d i = (if i < 0 then ''-'' @ fmt_u (nat (- i)) else fmt_u (nat i))"

definition round_half_even :: "rat \<Rightarrow> nat" where
  "round_half_even q =
     (let f = nat \<lfloor>q\<rfloor>; d = q - of_nat f
      in if d < 1 / 2 then f else if 1 / 2 < d then f + 1
         else if even f then f else f + 1)"

definition fmt_f :: "fp \<Rightarrow> string" where
  "fmt_f x =
     (case x of
        NaN \<Rightarrow> ''nan''
      | Neg_inf \<Rightarrow> ''-inf''
      | Neg_zero \<Rightarrow> ''-0.000000''
      | Pos_inf \<Rightarrow> ''inf''
      | Fin r \<Rightarrow>
          (let m = round_half_even (\<bar>r\<bar> * 1000000);
               frac = fmt_u (m mod 1000000)
           in (if r < 0 then ''-'' else '''') @ fmt_u (m div 1000000) @ ''.''
              @ drop (length frac) ''000000'' @ frac))"

text \<open>
  Modelled from the spec: \<open>String::endsWith\<close> is not among the sources; the string ends
  with the given suffix.
\<close>

definition endsWith :: "string \<Rightarrow> string \<Rightarrow> bool" where
  "endsWith str sfx =
     (length sfx \<le> length str \<and> drop (length str - length sfx) str = sfx)"

text \<open>
  \<open>readUntil\<close> passes its \<open>char\<close> array where a \<open>std::string\<close> is expected: the
  string is the array's content up to the first NUL. \<open>c_str\<close> is that conversion for an
  array that holds a NUL; whether it does is \<open>nul_terminated\<close> below, and the scan
  converts no other.
\<close>

definition c_str :: "string \<Rightarrow> string" where
  "c_str bfr = takeWhile (\<lambda>c. c \<noteq> CHR 0x00) bfr"

subsection \<open>Constants and enumerations\<close>

definition c_cmd_break :: string where
  "c_cmd_break = ''K1W%!Q''"

definition c_cmd_nortek :: string where
  "c_cmd_nortek = ''nortek''"

datatype PowerLevel = PL_MIN | PL_MED | PL_MAX

text \<open>The capacity of the read buffer: \<open>char bfr[256]\<close>.\<close>

definition sizeof_bfr :: nat where
  "sizeof_bfr = 256"

subsection \<open>Collaborators and driver state\<close>

text \<open>
  Modelled from the spec: \<open>Counter\<close>, \<open>Poll::poll\<close> and \<open>TCPSocket\<close> are not among
  the sources. \<open>sock_rx\<close> lists, for each pass through the head of \<open>readUntil\<close>'s
  loop, what the timer and the poll say: \<open>Expired\<close> when the timer has overflowed or the
  poll ran out of time, \<open>Readable bs\<close> when the poll reports the socket readable, \<open>bs\<close>
  being the bytes that arrived since the previous read. When the list is used up the
  device stays silent and every wait expires. \<open>sock_rxq\<close> holds the bytes that arrived
  but did not fit the size given to an earlier read. \<open>overread_match\<close> is an input as
  well: the answer that the suffix test gives when it is run on a full buffer without a
  NUL, which depends on what lies behind the array. The embedding does not choose it.
\<close>

datatype slot = Expired | Readable string

text \<open>
  The log of calls to the collaborators: \<open>m_sock.write\<close>, the construction of a
  \<open>Counter\<close> with its timeout in seconds, \<open>Delay::wait\<close> with its duration, and the
  three messages given to \<open>spew\<close>. A socket write is logged with the value of
  \<open>m_cmd_mode\<close> at the moment of the call. \<open>sanitize\<close> is not modelled: a spew entry
  holds the bytes as they are. \<open>Read_past_bfr\<close> marks the conversion of a full buffer
  without a NUL: from this entry on the behaviour of the program is not defined.
\<close>

datatype io =
    Sock_write bool string
  | Timer_start rat
  | Delay_wait rat
  | Spew_sent string
  | Spew_recv string
  | Spew_recv_fail string string
  | Read_past_bfr

record broken_down =
  year :: int
  month :: int
  day :: int
  hour :: int
  minutes :: int
  seconds :: int

record driver =
  m_salinity :: fp
  m_sampling_rate :: fp
  m_cmd_mode :: bool
  sock_rx :: "slot list"
  sock_rxq :: string
  overread_match :: bool
  clock :: broken_down
  trace :: "io list"

definition emit :: "io \<Rightarrow> driver \<Rightarrow> driver" where
  "emit e s = s\<lparr>trace := trace s @ [e]\<rparr>"

text \<open>The socket writes of a log, in order, each with the mode flag at the time.\<close>

fun writes :: "io list \<Rightarrow> (bool \<times> string) list" where
  "writes [] = []"
| "writes (Sock_write m b # es) = (m, b) # writes es"
| "writes (e # es) = writes es"

text \<open>The timeouts of the timers started in a log, in order.\<close>

fun timers :: "io list \<Rightarrow> rat list" where
  "timers [] = []"
| "timers (Timer_start t # es) = t # timers es"
| "timers (e # es) = timers es"

subsection \<open>Validators\<close>

definition setSalinity :: "fp \<Rightarrow> driver \<Rightarrow> driver" where
  "setSalinity v s =
     (if fp_lt v 0 \<or> fp_gt v 50 then s else s\<lparr>m_salinity := v\<rparr>)"

definition setSamplingRate :: "fp \<Rightarrow> driver \<Rightarrow> driver" where
  "setSamplingRate rate s =
     (if fp_lt rate 1 \<or> fp_gt rate 8 then s else s\<lparr>m_sampling_rate := rate\<rparr>)"

subsection \<open>Writing a line and reading until a sequence\<close>

text \<open>\<open>Driver::write\<close>: the command followed by CR LF goes to the socket and to the spew sink.\<close>

definition write_cmd :: "string \<Rightarrow> driver \<Rightarrow> driver" where
  "write_cmd cmd s =
     (let bfr = cmd @ CRLF
      in emit (Spew_sent bfr) (emit (Sock_write (m_cmd_mode s) bfr) s))"

text \<open>
  Modelled from the spec: \<open>TCPSocket::read\<close> is not among the sources. Given a size and
  the bytes available it delivers at most that many of them and leaves the others in the
  socket.
\<close>

definition sock_read :: "nat \<Rightarrow> string \<Rightarrow> string \<times> string" where
  "sock_read n avail = (take n avail, drop n avail)"

text \<open>
  The array is zero-initialised and filled from the front, so it holds a NUL as long as
  the cursor is below the capacity or a NUL has been received.
\<close>

definition nul_terminated :: "string \<Rightarrow> bool" where
  "nul_terminated bfr = (length bfr < sizeof_bfr \<or> CHR 0x00 \<in> set bfr)"

text \<open>
  One pass through the body of \<open>readUntil\<close>'s loop, and the loop. \<open>bfr\<close> is the
  part of the array below the cursor, so its length is \<open>offset\<close>; the read is given
  the address of the cursor and the space left as its size. A pass ends in \<open>break\<close>,
  in \<open>return true\<close>, or at the end of the body, from where the loop goes on; or it
  reaches the suffix test with an array that holds no NUL, where the conversion to a
  string reads past the array. The loop ends there too, with an outcome of its own. Its
  result is that outcome, the buffer, and what is left of the socket's input.
\<close>

datatype pass_end = Break | Return_true | Next_pass | Reads_past_bfr

datatype scan = Scan_true | Scan_false | Scan_undefined

fun readUntil_pass :: "string \<Rightarrow> string \<Rightarrow> string \<Rightarrow> slot \<Rightarrow> pass_end \<times> string \<times> string" where
  "readUntil_pass sequence bfr rxq Expired = (Break, bfr, rxq)"
| "readUntil_pass sequence bfr rxq (Readable bs) =
     (let (data, rxq') = sock_read (sizeof_bfr - length bfr) (rxq @ bs);
          bfr' = bfr @ data
      in if sizeof_bfr < length bfr' then (Break, bfr', rxq')
         else if \<not> nul_terminated bfr' then (Reads_past_bfr, bfr', rxq')
         else if endsWith (c_str bfr') sequence then (Return_true, bfr', rxq')
         else (Next_pass, bfr', rxq'))"

fun readUntil_loop ::
  "string \<Rightarrow> string \<Rightarrow> string \<Rightarrow> slot list \<Rightarrow> scan \<times> string \<times> string \<times> slot list" where
  "readUntil_loop sequence bfr rxq [] = (Scan_false, bfr, rxq, [])"
| "readUntil_loop sequence bfr rxq (sl # rx) =
     (case readUntil_pass sequence bfr rxq sl of
        (Break, bfr', rxq') \<Rightarrow> (Scan_false, bfr', rxq', rx)
      | (Return_true, bfr', rxq') \<Rightarrow> (Scan_true, bfr', rxq', rx)
      | (Next_pass, bfr', rxq') \<Rightarrow> readUntil_loop sequence bfr' rxq' rx
      | (Reads_past_bfr, bfr', rxq') \<Rightarrow> (Scan_undefined, bfr', rxq', rx))"

text \<open>
  \<open>readUntil\<close> has to return a \<open>bool\<close>. Where the scan is undefined the log gets the
  entry \<open>Read_past_bfr\<close> and the result is the input \<open>overread_match\<close>; what the program
  would spew there is not defined and is left out.
\<close>

definition readUntil :: "string \<Rightarrow> rat \<Rightarrow> bool \<Rightarrow> driver \<Rightarrow> bool \<times> driver" where
  "readUntil sequence timeout print s =
     (case readUntil_loop sequence [] (sock_rxq s) (sock_rx s) of
        (v, bfr, rxq, rx) \<Rightarrow>
          (let s1 = (emit (Timer_start timeout) s)\<lparr>sock_rxq := rxq, sock_rx := rx\<rparr>
           in case v of
                Scan_true \<Rightarrow> (True, if print then emit (Spew_recv (c_str bfr)) s1 else s1)
              | Scan_false \<Rightarrow>
                  (False, if print then emit (Spew_recv_fail (c_str bfr) sequence) s1 else s1)
              | Scan_undefined \<Rightarrow> (overread_match s, emit Read_past_bfr s1)))"

subsection \<open>Commands and mode transitions\<close>

text \<open>
  \<open>sendCommand\<close>, \<open>enterCommandMode\<close> and \<open>sendBreak\<close> call each other. The calls
  \<open>sendCommand(c_cmd_break, true, 2.0)\<close> and \<open>sendCommand("MC", 2.0, true)\<close> are kept as
  written: the parameters are \<open>(cmd, ignore, print)\<close>, both \<open>bool\<close>, so the \<open>2.0\<close> is
  converted to \<open>bool\<close>.
\<close>

function sendCommand :: "string \<Rightarrow> bool \<Rightarrow> bool \<Rightarrow> driver \<Rightarrow> bool \<times> driver"
  and enterCommandMode :: "driver \<Rightarrow> bool \<times> driver"
  and sendBreak :: "driver \<Rightarrow> bool \<times> driver"
where
  "sendCommand cmd ignore print s =
     (if \<not> ignore then
        (case enterCommandMode s of
           (False, s1) \<Rightarrow> (False, s1)
         | (True, s1) \<Rightarrow> readUntil (''OK'' @ CRLF) 1 print (write_cmd cmd s1))
      else readUntil (''OK'' @ CRLF) 1 print (write_cmd cmd s))"
| "enterCommandMode s =
     (if m_cmd_mode s then (True, s)
      else
        (case sendBreak s of
           (False, s1) \<Rightarrow> (False, s1)
         | (True, s1) \<Rightarrow>
             (case sendCommand ''MC'' (bool_of_double 2) True (emit (Delay_wait 1) s1) of
                (False, s2) \<Rightarrow> (False, s2)
              | (True, s2) \<Rightarrow> (True, s2\<lparr>m_cmd_mode := True\<rparr>))))"
| "sendBreak s =
     (case sendCommand c_cmd_break True (bool_of_double 2) s of
        (False, s1) \<Rightarrow>
          (case sendCommand c_cmd_break True (bool_of_double 2) s1 of
             (True, s2) \<Rightarrow> (True, s2)
           | (False, s2) \<Rightarrow> (False, s2))
      | (True, s1) \<Rightarrow> (True, s1))"
  by pat_completeness auto

termination
  by (relation "measure (\<lambda>x. case x of
         Inl (cmd, ignore, print, s) \<Rightarrow> if ignore then 0 else 3
       | Inr (Inl s) \<Rightarrow> 2
       | Inr (Inr s) \<Rightarrow> (1::nat))")
     (auto simp: bool_of_double_def)

declare sendCommand.simps [simp del] enterCommandMode.simps [simp del] sendBreak.simps [simp del]

definition start :: "driver \<Rightarrow> bool \<times> driver" where
  "start s =
     (case sendCommand ''START'' False False s of
        (True, s1) \<Rightarrow> (True, s1\<lparr>m_cmd_mode := False\<rparr>)
      | (False, s1) \<Rightarrow> (False, s1))"

definition replyLogin :: "string \<Rightarrow> driver \<Rightarrow> bool \<times> driver" where
  "replyLogin reply s =
     (case readUntil reply 1 True s of
        (True, s1) \<Rightarrow> (True, write_cmd c_cmd_nortek s1)
      | (False, s1) \<Rightarrow> (False, s1))"

text \<open>\<open>login\<close> calls \<open>replyLogin\<close> twice and drops what it returns.\<close>

definition login :: "driver \<Rightarrow> bool \<times> driver" where
  "login s =
     (let s1 = snd (replyLogin ''Username: '' s);
          s2 = snd (replyLogin ''Password: '' s1)
      in case readUntil (''Command Interface'' @ [CHR 0x0D] @ CRLF) 2 True s2 of
           (True, s3) \<Rightarrow> (True, emit (Delay_wait 1) s3)
         | (False, s3) \<Rightarrow> (False, s3))"

definition setTime :: "driver \<Rightarrow> bool \<times> driver" where
  "setTime s =
     (let tm = clock s;
          cmd = ''SETCLOCK,YEAR='' @ fmt_d (year tm) @ '',MONTH='' @ fmt_d (month tm)
                @ '',DAY='' @ fmt_d (day tm) @ '',HOUR='' @ fmt_d (hour tm)
                @ '',MINUTE='' @ fmt_d (minutes tm) @ '',SECOND='' @ fmt_d (seconds tm)
      in case sendCommand cmd False False s of
           (False, s1) \<Rightarrow> (False, s1)
         | (True, s1) \<Rightarrow> (True, s1))"

definition setDVL :: "driver \<Rightarrow> bool \<times> driver" where
  "setDVL s =
     (let cmd = ''SETDVL,SR='' @ fmt_f (m_sampling_rate s) @ '',SA='' @ fmt_f (m_salinity s)
      in case sendCommand cmd False False s of
           (False, s1) \<Rightarrow> (False, s1)
         | (True, s1) \<Rightarrow> (True, s1))"

definition save :: "driver \<Rightarrow> bool \<times> driver" where
  "save s =
     (case sendCommand ''SAVE,ALL'' False False s of
        (False, s1) \<Rightarrow> (False, snd (sendCommand ''GETERROR'' False False s1))
      | (True, s1) \<Rightarrow> (True, s1))"

definition Driver_setup :: "driver \<Rightarrow> bool \<times> driver" where
  "Driver_setup s =
     (case login s of
        (False, s1) \<Rightarrow> (False, s1)
      | (True, s1) \<Rightarrow>
     (case enterCommandMode s1 of
        (False, s2) \<Rightarrow> (False, s2)
      | (True, s2) \<Rightarrow>
     (case sendCommand ''SETDEFAULT,ALL'' False False s2 of
        (False, s3) \<Rightarrow> (False, s3)
      | (True, s3) \<Rightarrow>
     (case sendCommand (''SETINST,LED='' @ [CHR 0x22] @ ''OFF'' @ [CHR 0x22]) False False s3 of
        (False, s4) \<Rightarrow> (False, s4)
      | (True, s4) \<Rightarrow>
     (case setTime s4 of
        (False, s5) \<Rightarrow> (False, s5)
      | (True, s5) \<Rightarrow>
     (case setDVL s5 of
        (False, s6) \<Rightarrow> (False, s6)
      | (True, s6) \<Rightarrow>
     (case save s6 of
        (False, s7) \<Rightarrow> (False, s7)
      | (True, s7) \<Rightarrow> start s7)))))))"

definition setPowerLevel :: "PowerLevel \<Rightarrow> driver \<Rightarrow> bool \<times> driver" where
  "setPowerLevel level s =
     (let power = (case level of
                     PL_MIN \<Rightarrow> Fin (- 20)
                   | PL_MED \<Rightarrow> Fin (- 10)
                   | PL_MAX \<Rightarrow> Fin 0);
          cmd = ''SETBT,PL='' @ fmt_f power;
          (r, s1) = sendCommand cmd False False s;
          s2 = snd (start s1)
      in (r, s2))"

text \<open>
  The constructor sets the defaults and passes the requested rate through the validator;
  it is given the inputs of the run along with the rate. The destructor sends a
  power-down command and drops the result.
\<close>

definition Driver :: "fp \<Rightarrow> slot list \<Rightarrow> bool \<Rightarrow> broken_down \<Rightarrow> driver" where
  "Driver rate rx om tm =
     setSamplingRate rate
       \<lparr>m_salinity = Fin 35, m_sampling_rate = Fin 5, m_cmd_mode = False,
        sock_rx = rx, sock_rxq = [], overread_match = om, clock = tm, trace = []\<rparr>"

definition Driver_destroy :: "driver \<Rightarrow> driver" where
  "Driver_destroy s = snd (sendCommand ''POWERDOWN'' False False s)"

subsection \<open>The specification's own formulations\<close>

text \<open>
  The specification describes the setup as a sequencer over eight steps that stops at the
  first step that fails. \<open>sequencer\<close> and \<open>setup_steps\<close> follow its words, to be
  compared with \<open>Driver_setup\<close>.
\<close>

fun sequencer :: "(driver \<Rightarrow> bool \<times> driver) list \<Rightarrow> driver \<Rightarrow> bool \<times> driver" where
  "sequencer [] s = (True, s)"
| "sequencer (step # steps) s =
     (case step s of
        (False, s1) \<Rightarrow> (False, s1)
      | (True, s1) \<Rightarrow> sequencer steps s1)"

definition setup_steps :: "(driver \<Rightarrow> bool \<times> driver) list" where
  "setup_steps =
     [login,
      enterCommandMode,
      sendCommand ''SETDEFAULT,ALL'' False False,
      sendCommand (''SETINST,LED='' @ [CHR 0x22] @ ''OFF'' @ [CHR 0x22]) False False,
      setTime,
      setDVL,
      save,
      start]"

text \<open>The specification's mapping from power level to decibels.\<close>

fun powerLevelToDecibels :: "PowerLevel \<Rightarrow> fp" where
  "powerLevelToDecibels PL_MIN = Fin (- 20)"
| "powerLevelToDecibels PL_MED = Fin (- 10)"
| "powerLevelToDecibels PL_MAX = Fin 0"

text \<open>The specification's validated range: \<open>lo \<le> v \<le> hi\<close>, which no NaN satisfies.\<close>

fun fp_within :: "rat \<Rightarrow> rat \<Rightarrow> fp \<Rightarrow> bool" where
  "fp_within lo hi (Fin r) = (lo \<le> r \<and> r \<le> hi)"
| "fp_within lo hi Neg_zero = (lo \<le> 0 \<and> 0 \<le> hi)"
| "fp_within lo hi v = False"

subsection \<open>What arrives during a wait\<close>

text \<open>
  The bytes that the socket's input holds for one wait: those of the readable slots up
  to the first one that expires. They come after the bytes still pending in the socket.
\<close>

fun arrived :: "slot list \<Rightarrow> string" where
  "arrived [] = []"
| "arrived (Expired # rx) = []"
| "arrived (Readable bs # rx) = bs @ arrived rx"

subsection \<open>Example runs\<close>

text \<open>
  A clock reading, the device's acknowledgment as one readable chunk, and a driver as the
  constructor leaves it, facing a device that will send the given input.
\<close>

definition clock_2016 :: broken_down where
  "clock_2016 = \<lparr>year = 2016, month = 3, day = 14, hour = 9, minutes = 26, seconds = 53\<rparr>"

definition ack :: slot where
  "ack = Readable (''OK'' @ CRLF)"

definition facing :: "slot list \<Rightarrow> driver" where
  "facing rx = Driver (Fin 5) rx False clock_2016"

text \<open>
  The input of a device that prompts for the login, shows its banner and then
  acknowledges six commands before it falls silent.
\<close>

definition cooperative :: "slot list" where
  "cooperative =
     [Readable ''Username: '', Readable ''Password: '',
      Readable (''Command Interface'' @ [CHR 0x0D] @ CRLF),
      ack, ack, ack, ack, ack, ack]"

section \<open>Basic facts\<close>

subsection \<open>The log\<close>

lemma writes_append: "writes (xs @ ys) = writes xs @ writes ys"
  by (induction xs rule: writes.induct) auto

lemma timers_append: "timers (xs @ ys) = timers xs @ timers ys"
  by (induction xs rule: timers.induct) auto

lemma emit_mode [simp]: "m_cmd_mode (emit e s) = m_cmd_mode s"
  by (simp add: emit_def)

lemma emit_delay_writes [simp]: "writes (trace (emit (Delay_wait d) s)) = writes (trace s)"
  by (simp add: emit_def writes_append)

lemma emit_delay_timers [simp]: "timers (trace (emit (Delay_wait d) s)) = timers (trace s)"
  by (simp add: emit_def timers_append)

subsection \<open>Reading and writing\<close>

lemma readUntil_fst:
  "fst (readUntil q t p s) =
     (case fst (readUntil_loop q [] (sock_rxq s) (sock_rx s)) of
        Scan_true \<Rightarrow> True
      | Scan_false \<Rightarrow> False
      | Scan_undefined \<Rightarrow> overread_match s)"
  by (simp add: readUntil_def Let_def split: prod.splits scan.splits)

lemma readUntil_mode [simp]: "m_cmd_mode (snd (readUntil q t p s)) = m_cmd_mode s"
  by (simp add: readUntil_def Let_def emit_def split: prod.splits scan.splits)

lemma readUntil_writes [simp]: "writes (trace (snd (readUntil q t p s))) = writes (trace s)"
  by (simp add: readUntil_def Let_def emit_def writes_append split: prod.splits scan.splits)

lemma readUntil_timers [simp]:
  "timers (trace (snd (readUntil q t p s))) = timers (trace s) @ [t]"
  by (simp add: readUntil_def Let_def emit_def timers_append split: prod.splits scan.splits)

lemma write_cmd_input [simp]:
  "sock_rx (write_cmd cmd s) = sock_rx s" "sock_rxq (write_cmd cmd s) = sock_rxq s"
  "overread_match (write_cmd cmd s) = overread_match s"
  by (simp_all add: write_cmd_def emit_def Let_def)

lemma write_cmd_mode [simp]: "m_cmd_mode (write_cmd cmd s) = m_cmd_mode s"
  by (simp add: write_cmd_def Let_def emit_def)

lemma write_cmd_writes [simp]:
  "writes (trace (write_cmd cmd s)) = writes (trace s) @ [(m_cmd_mode s, cmd @ CRLF)]"
  by (simp add: write_cmd_def Let_def emit_def writes_append)

lemma write_cmd_timers [simp]: "timers (trace (write_cmd cmd s)) = timers (trace s)"
  by (simp add: write_cmd_def Let_def emit_def timers_append)

subsection \<open>The three mutually recursive functions, one at a time\<close>

lemma bool_of_double_2 [simp]: "bool_of_double 2"
  by (simp add: bool_of_double_def)

lemma sendCommand_bypass:
  "sendCommand cmd True p s = readUntil (''OK'' @ CRLF) 1 p (write_cmd cmd s)"
  by (simp add: sendCommand.simps)

lemma sendCommand_default:
  "sendCommand cmd False p s =
     (if fst (enterCommandMode s)
      then readUntil (''OK'' @ CRLF) 1 p (write_cmd cmd (snd (enterCommandMode s)))
      else (False, snd (enterCommandMode s)))"
  by (simp add: sendCommand.simps split: prod.splits bool.splits)

lemma sendBreak_eq:
  "sendBreak s =
     (if fst (sendCommand c_cmd_break True True s) then sendCommand c_cmd_break True True s
      else sendCommand c_cmd_break True True (snd (sendCommand c_cmd_break True True s)))"
  by (simp add: sendBreak.simps split: prod.splits bool.splits)

lemma enterCommandMode_eq:
  "enterCommandMode s =
     (if m_cmd_mode s then (True, s)
      else if fst (sendBreak s)
      then (if fst (sendCommand ''MC'' True True (emit (Delay_wait 1) (snd (sendBreak s))))
            then (True, (snd (sendCommand ''MC'' True True
                               (emit (Delay_wait 1) (snd (sendBreak s)))))\<lparr>m_cmd_mode := True\<rparr>)
            else (False, snd (sendCommand ''MC'' True True
                               (emit (Delay_wait 1) (snd (sendBreak s))))))
      else (False, snd (sendBreak s)))"
  by (simp add: enterCommandMode.simps split: prod.splits bool.splits)

lemma start_eq:
  "start s =
     (if fst (sendCommand ''START'' False False s)
      then (True, (snd (sendCommand ''START'' False False s))\<lparr>m_cmd_mode := False\<rparr>)
      else (False, snd (sendCommand ''START'' False False s)))"
  by (simp add: start_def split: prod.splits bool.splits)

lemma attempt_mode [simp]: "m_cmd_mode (snd (sendCommand cmd True p s)) = m_cmd_mode s"
  by (simp add: sendCommand_bypass)

lemma attempt_writes [simp]:
  "writes (trace (snd (sendCommand cmd True p s))) =
     writes (trace s) @ [(m_cmd_mode s, cmd @ CRLF)]"
  by (simp add: sendCommand_bypass)

lemma attempt_timers [simp]:
  "timers (trace (snd (sendCommand cmd True p s))) = timers (trace s) @ [1]"
  by (simp add: sendCommand_bypass)

lemma sendBreak_mode [simp]: "m_cmd_mode (snd (sendBreak s)) = m_cmd_mode s"
  by (simp add: sendBreak_eq)

lemma sendBreak_writes:
  "writes (trace (snd (sendBreak s))) =
     writes (trace s) @
     replicate (if fst (sendCommand c_cmd_break True True s) then 1 else 2)
       (m_cmd_mode s, c_cmd_break @ CRLF)"
  by (simp add: sendBreak_eq numeral_2_eq_2)

lemma sendBreak_timers:
  "timers (trace (snd (sendBreak s))) =
     timers (trace s) @
     replicate (if fst (sendCommand c_cmd_break True True s) then 1 else 2) 1"
  by (simp add: sendBreak_eq numeral_2_eq_2)

lemma enterCommandMode_success_mode:
  "fst (enterCommandMode s) \<Longrightarrow> m_cmd_mode (snd (enterCommandMode s))"
  by (simp add: enterCommandMode_eq split: if_splits)

lemma enterCommandMode_noop: "m_cmd_mode s \<Longrightarrow> enterCommandMode s = (True, s)"
  by (simp add: enterCommandMode_eq)

lemma enterCommandMode_writes:
  "writes (trace (snd (enterCommandMode s))) =
     writes (trace s) @
     (if m_cmd_mode s then []
      else replicate (if fst (sendCommand c_cmd_break True True s) then 1 else 2)
             (False, c_cmd_break @ CRLF)
           @ replicate (if fst (sendBreak s) then 1 else 0) (False, ''MC'' @ CRLF))"
  by (simp add: enterCommandMode_eq sendBreak_writes)

lemma sendCommand_default_writes:
  "writes (trace (snd (sendCommand cmd False p s))) =
     writes (trace (snd (enterCommandMode s))) @
     (if fst (enterCommandMode s) then [(True, cmd @ CRLF)] else [])"
  by (simp add: sendCommand_default enterCommandMode_success_mode)

lemma sendCommand_default_mode:
  "fst (sendCommand cmd False p s) \<Longrightarrow> m_cmd_mode (snd (sendCommand cmd False p s))"
  by (simp add: sendCommand_default enterCommandMode_success_mode split: if_splits)

lemma sendCommand_in_command_mode:
  "m_cmd_mode s \<Longrightarrow>
     sendCommand cmd False p s = readUntil (''OK'' @ CRLF) 1 p (write_cmd cmd s)"
  by (simp add: sendCommand_default enterCommandMode_noop)

lemma sendCommand_writes_bound:
  "\<exists>n m k b. n \<le> 2 \<and> m \<le> 1 \<and> k \<le> 1 \<and>
     writes (trace (snd (sendCommand cmd ignore print s))) =
       writes (trace s) @ replicate n (False, c_cmd_break @ CRLF)
       @ replicate m (False, ''MC'' @ CRLF) @ replicate k (b, cmd @ CRLF)"
proof (cases ignore)
  case True
  then have "writes (trace (snd (sendCommand cmd ignore print s))) =
       writes (trace s) @ replicate 0 (False, c_cmd_break @ CRLF)
       @ replicate 0 (False, ''MC'' @ CRLF) @ replicate 1 (m_cmd_mode s, cmd @ CRLF)"
    by simp
  then show ?thesis by (metis le0 le_refl)
next
  case False
  let ?n = "if m_cmd_mode s then 0
            else if fst (sendCommand c_cmd_break True True s) then 1 else (2::nat)"
  let ?m = "if m_cmd_mode s then 0 else if fst (sendBreak s) then 1 else (0::nat)"
  let ?k = "if fst (enterCommandMode s) then 1 else (0::nat)"
  from False have "writes (trace (snd (sendCommand cmd ignore print s))) =
       writes (trace s) @ replicate ?n (False, c_cmd_break @ CRLF)
       @ replicate ?m (False, ''MC'' @ CRLF) @ replicate ?k (True, cmd @ CRLF)"
    by (simp add: sendCommand_default_writes enterCommandMode_writes)
  moreover have "?n \<le> 2" "?m \<le> 1" "?k \<le> 1" by simp_all
  ultimately show ?thesis by blast
qed

lemma enterCommandMode_timers:
  "\<exists>n. timers (trace (snd (enterCommandMode s))) = timers (trace s) @ replicate n 1"
proof (cases "m_cmd_mode s")
  case True
  then have "timers (trace (snd (enterCommandMode s))) = timers (trace s) @ replicate 0 1"
    by (simp add: enterCommandMode_noop)
  then show ?thesis by blast
next
  case False
  show ?thesis
  proof (cases "fst (sendBreak s)")
    case True
    with False have "timers (trace (snd (enterCommandMode s))) =
        timers (trace s) @
        replicate (Suc (if fst (sendCommand c_cmd_break True True s) then 1 else 2)) 1"
      by (simp add: enterCommandMode_eq sendBreak_timers replicate_append_same)
    then show ?thesis by blast
  next
    case b: False
    with False have "timers (trace (snd (enterCommandMode s))) =
        timers (trace s) @
        replicate (if fst (sendCommand c_cmd_break True True s) then 1 else 2) 1"
      by (simp add: enterCommandMode_eq sendBreak_timers)
    then show ?thesis by blast
  qed
qed

lemma sendCommand_default_timers:
  "timers (trace (snd (sendCommand cmd False p s))) =
     timers (trace (snd (enterCommandMode s))) @ (if fst (enterCommandMode s) then [1] else [])"
  by (simp add: sendCommand_default)

subsection \<open>Formatting\<close>

lemma fmt_u_small: "n < 10 \<Longrightarrow> fmt_u n = [digit_char n]"
  by (simp add: fmt_u.simps)

lemma fmt_u_large: "\<not> n < 10 \<Longrightarrow> fmt_u n = fmt_u (n div 10) @ [digit_char (n mod 10)]"
  by (subst fmt_u.simps) simp

lemmas fmt_eval = fmt_f_def fmt_d_def round_half_even_def fmt_u_small fmt_u_large digit_char_def

lemma fmt_f_zeros: "fmt_f (Fin 0) = ''0.000000''" "fmt_f Neg_zero = ''-0.000000''"
  by (simp_all add: fmt_eval)

lemma fmt_f_power:
  "fmt_f (Fin (- 20)) = ''-20.000000''"
  "fmt_f (Fin (- 10)) = ''-10.000000''"
  "fmt_f (Fin 0) = ''0.000000''"
  by (simp_all add: fmt_eval)

subsection \<open>Evaluating the driver on a given input\<close>

lemmas driver_eval =
  sendCommand.simps enterCommandMode.simps sendBreak.simps start_def readUntil_def
  write_cmd_def emit_def sock_read_def nul_terminated_def endsWith_def c_str_def CRLF_def
  sizeof_bfr_def c_cmd_break_def
  c_cmd_nortek_def bool_of_double_def Driver_def setSamplingRate_def clock_2016_def
  ack_def facing_def Let_def

lemmas setup_eval =
  setup_steps_def login_def replyLogin_def setTime_def setDVL_def save_def cooperative_def

subsection \<open>The scan\<close>

lemma readUntil_pass_bfr:
  "fst (snd (readUntil_pass q bfr rxq (Readable bs))) =
     bfr @ take (sizeof_bfr - length bfr) (rxq @ bs)"
  by (simp add: Let_def sock_read_def del: take_append)

lemma readUntil_pass_bound:
  assumes "length bfr \<le> sizeof_bfr"
  shows "length (fst (snd (readUntil_pass q bfr rxq sl))) \<le> sizeof_bfr"
proof (cases sl)
  case Expired
  with assms show ?thesis by simp
next
  case (Readable bs)
  from assms have "length (bfr @ take (sizeof_bfr - length bfr) (rxq @ bs)) \<le> sizeof_bfr"
    by (simp del: take_append)
  with Readable show ?thesis by (simp only: readUntil_pass_bfr)
qed

lemma readUntil_pass_no_overrun:
  "length bfr \<le> sizeof_bfr \<Longrightarrow> fst (readUntil_pass q bfr rxq sl) = Break \<Longrightarrow> sl = Expired"
  by (cases sl) (simp_all add: Let_def sock_read_def del: take_append split: if_splits)

lemma readUntil_loop_bound:
  "length bfr \<le> sizeof_bfr \<Longrightarrow> length (fst (snd (readUntil_loop q bfr rxq rx))) \<le> sizeof_bfr"
proof (induction rx arbitrary: bfr rxq)
  case Nil
  then show ?case by simp
next
  case (Cons sl rx)
  obtain e bfr' rxq' where p: "readUntil_pass q bfr rxq sl = (e, bfr', rxq')"
    by (cases "readUntil_pass q bfr rxq sl") auto
  with readUntil_pass_bound [OF Cons.prems, of q rxq sl] have b: "length bfr' \<le> sizeof_bfr"
    by simp
  show ?case
  proof (cases e)
    case Next_pass
    with p Cons.IH [OF b] show ?thesis by simp
  qed (use p b in simp_all)
qed

text \<open>What a pass leaves in the buffer and in the socket is what was there and what came.\<close>

lemma readUntil_pass_bytes:
  "readUntil_pass q bfr rxq sl = (e, bfr', rxq') \<Longrightarrow>
     bfr' @ rxq' = bfr @ rxq @ (case sl of Expired \<Rightarrow> [] | Readable bs \<Rightarrow> bs)"
  by (cases sl) (auto simp: Let_def sock_read_def simp del: take_append drop_append
                      split: if_splits)

lemma readUntil_pass_ends:
  "readUntil_pass q bfr rxq sl = (Return_true, bfr', rxq') \<Longrightarrow>
     nul_terminated bfr' \<and> endsWith (c_str bfr') q"
  "readUntil_pass q bfr rxq sl = (Reads_past_bfr, bfr', rxq') \<Longrightarrow> \<not> nul_terminated bfr'"
  by (cases sl; auto simp: Let_def sock_read_def split: if_splits)+

text \<open>The buffer that the loop ends with is a prefix of the pending and arriving bytes.\<close>

lemma readUntil_loop_prefix:
  "\<exists>post. bfr @ rxq @ arrived rx = fst (snd (readUntil_loop q bfr rxq rx)) @ post"
proof (induction rx arbitrary: bfr rxq)
  case Nil
  show ?case by simp
next
  case (Cons sl rx)
  obtain e bfr' rxq' where p: "readUntil_pass q bfr rxq sl = (e, bfr', rxq')"
    by (cases "readUntil_pass q bfr rxq sl") auto
  show ?case
  proof (cases sl)
    case Expired
    with p show ?thesis by auto
  next
    case (Readable bs)
    with readUntil_pass_bytes [OF p] have b: "bfr @ rxq @ bs = bfr' @ rxq'"
      by simp
    then have t: "bfr @ rxq @ arrived (sl # rx) = bfr' @ rxq' @ arrived rx"
      using Readable by simp
    show ?thesis
    proof (cases e)
      case Next_pass
      from Cons.IH [of bfr' rxq'] obtain post where
        "bfr' @ rxq' @ arrived rx = fst (snd (readUntil_loop q bfr' rxq' rx)) @ post"
        by blast
      with t p Next_pass show ?thesis by simp
    qed (use t p in simp_all)
  qed
qed

lemma readUntil_loop_found:
  "fst (readUntil_loop q bfr rxq rx) = Scan_true \<Longrightarrow>
     endsWith (c_str (fst (snd (readUntil_loop q bfr rxq rx)))) q"
proof (induction rx arbitrary: bfr rxq)
  case Nil
  then show ?case by simp
next
  case (Cons sl rx)
  obtain e bfr' rxq' where p: "readUntil_pass q bfr rxq sl = (e, bfr', rxq')"
    by (cases "readUntil_pass q bfr rxq sl") auto
  show ?case
  proof (cases e)
    case Return_true
    with p readUntil_pass_ends(1) [of q bfr rxq sl bfr' rxq'] show ?thesis by simp
  next
    case Next_pass
    with p Cons.prems Cons.IH [of bfr' rxq'] show ?thesis by simp
  qed (use p Cons.prems in simp_all)
qed

lemma readUntil_loop_undefined:
  "fst (readUntil_loop q bfr rxq rx) = Scan_undefined \<Longrightarrow>
     \<not> nul_terminated (fst (snd (readUntil_loop q bfr rxq rx)))"
proof (induction rx arbitrary: bfr rxq)
  case Nil
  then show ?case by simp
next
  case (Cons sl rx)
  obtain e bfr' rxq' where p: "readUntil_pass q bfr rxq sl = (e, bfr', rxq')"
    by (cases "readUntil_pass q bfr rxq sl") auto
  show ?case
  proof (cases e)
    case Reads_past_bfr
    with p readUntil_pass_ends(2) [of q bfr rxq sl bfr' rxq'] show ?thesis by simp
  next
    case Next_pass
    with p Cons.prems Cons.IH [of bfr' rxq'] show ?thesis by simp
  qed (use p Cons.prems in simp_all)
qed

text \<open>
  The conversion is applied to arrays that hold a NUL only: a scan that starts with such
  an array within the capacity and ends defined ends with such an array, which is the
  one that \<open>readUntil\<close> hands to \<open>spew\<close>.
\<close>

lemma readUntil_pass_terminated:
  assumes "nul_terminated bfr" and "length bfr \<le> sizeof_bfr"
    and "readUntil_pass q bfr rxq sl = (e, bfr', rxq')" and "e \<noteq> Reads_past_bfr"
  shows "nul_terminated bfr'"
proof (cases sl)
  case Expired
  with assms show ?thesis by simp
next
  case (Readable bs)
  from assms(2) have "length (fst (snd (readUntil_pass q bfr rxq sl))) \<le> sizeof_bfr"
    by (rule readUntil_pass_bound)
  with assms(3) have "\<not> sizeof_bfr < length bfr'" by simp
  with assms(3,4) Readable show ?thesis
    by (auto simp: Let_def sock_read_def simp del: take_append split: if_splits)
qed

lemma readUntil_loop_terminated:
  "nul_terminated bfr \<Longrightarrow> length bfr \<le> sizeof_bfr \<Longrightarrow>
   fst (readUntil_loop q bfr rxq rx) \<noteq> Scan_undefined \<Longrightarrow>
     nul_terminated (fst (snd (readUntil_loop q bfr rxq rx)))"
proof (induction rx arbitrary: bfr rxq)
  case Nil
  then show ?case by simp
next
  case (Cons sl rx)
  obtain e bfr' rxq' where p: "readUntil_pass q bfr rxq sl = (e, bfr', rxq')"
    by (cases "readUntil_pass q bfr rxq sl") auto
  from readUntil_pass_bound [OF Cons.prems(2), of q rxq sl] p
  have b: "length bfr' \<le> sizeof_bfr" by simp
  show ?case
  proof (cases e)
    case Reads_past_bfr
    with p Cons.prems(3) show ?thesis by simp
  next
    case Next_pass
    with readUntil_pass_terminated [OF Cons.prems(1,2) p] have "nul_terminated bfr'"
      by simp
    from Cons.IH [OF this b] p Next_pass Cons.prems(3) show ?thesis by simp
  next
    case Break
    with readUntil_pass_terminated [OF Cons.prems(1,2) p] p show ?thesis by simp
  next
    case Return_true
    with readUntil_pass_terminated [OF Cons.prems(1,2) p] p show ?thesis by simp
  qed
qed

text \<open>With fewer bytes than the buffer holds the scan stays defined.\<close>

lemma readUntil_loop_defined:
  assumes "length (bfr @ rxq @ arrived rx) < sizeof_bfr"
  shows "fst (readUntil_loop q bfr rxq rx) \<noteq> Scan_undefined"
proof
  assume u: "fst (readUntil_loop q bfr rxq rx) = Scan_undefined"
  obtain post where
    "bfr @ rxq @ arrived rx = fst (snd (readUntil_loop q bfr rxq rx)) @ post"
    using readUntil_loop_prefix by blast
  then have "length (fst (snd (readUntil_loop q bfr rxq rx))) \<le> length (bfr @ rxq @ arrived rx)"
    by simp
  with assms have "nul_terminated (fst (snd (readUntil_loop q bfr rxq rx)))"
    by (simp add: nul_terminated_def)
  with readUntil_loop_undefined [OF u] show False by simp
qed

text \<open>A scan that finds the sequence has it among the pending and arriving bytes.\<close>

lemma endsWith_append: "endsWith str sfx \<Longrightarrow> \<exists>pre. str = pre @ sfx"
  unfolding endsWith_def by (metis append_take_drop_id)

lemma c_str_prefix: "\<exists>rest. bfr = c_str bfr @ rest"
  unfolding c_str_def by (metis takeWhile_dropWhile_id)

lemma readUntil_loop_found_in_input:
  assumes "fst (readUntil_loop q bfr rxq rx) = Scan_true"
  shows "\<exists>pre post. bfr @ rxq @ arrived rx = pre @ q @ post"
proof -
  let ?b = "fst (snd (readUntil_loop q bfr rxq rx))"
  obtain post where t: "bfr @ rxq @ arrived rx = ?b @ post"
    using readUntil_loop_prefix by blast
  obtain rest where r: "?b = c_str ?b @ rest"
    using c_str_prefix by blast
  obtain pre where e: "c_str ?b = pre @ q"
    using endsWith_append [OF readUntil_loop_found [OF assms]] by blast
  from t r e have "bfr @ rxq @ arrived rx = pre @ q @ (rest @ post)"
    by (metis append_assoc)
  then show ?thesis by blast
qed

text \<open>
  From the empty buffer, with nothing pending: a first read of fewer bytes than the buffer
  holds, none of them NUL, that end with the sequence ends the scan with success.
\<close>

lemma c_str_no_nul: "CHR 0x00 \<notin> set bfr \<Longrightarrow> c_str bfr = bfr"
  by (induction bfr) (auto simp: c_str_def)

lemma readUntil_loop_first_read:
  "length bs < sizeof_bfr \<Longrightarrow> CHR 0x00 \<notin> set bs \<Longrightarrow> endsWith bs q \<Longrightarrow>
     readUntil_loop q [] [] (Readable bs # rx) = (Scan_true, bs, [], rx)"
  by (simp add: Let_def sock_read_def nul_terminated_def c_str_no_nul)

text \<open>
  At the capacity, with no NUL in the buffer, the next pass that reads stores nothing
  and runs the suffix test on an array without a NUL.
\<close>

lemma readUntil_pass_at_capacity:
  "length bfr = sizeof_bfr \<Longrightarrow> CHR 0x00 \<notin> set bfr \<Longrightarrow>
     readUntil_pass q bfr rxq (Readable bs) = (Reads_past_bfr, bfr, rxq @ bs)"
  by (simp add: Let_def sock_read_def nul_terminated_def)

section \<open>The mode invariant\<close>

text \<open>
  Claim C1. A command sent on the default path (\<open>ignore\<close> false) that succeeds leaves the
  driver in command mode; a start that succeeds leaves it in measurement mode; and of the
  lines such a command puts on the wire, the only ones written while \<open>m_cmd_mode\<close> is
  false are the break and \<open>MC\<close> lines of the mode entry: the command's own line is written
  once, in command mode, and only if the mode entry succeeded.
\<close>

theorem mode_invariant:
  "(fst (sendCommand cmd False print s) \<longrightarrow> m_cmd_mode (snd (sendCommand cmd False print s)))
   \<and> (fst (start s) \<longrightarrow> \<not> m_cmd_mode (snd (start s)))
   \<and> (\<exists>ws. writes (trace (snd (sendCommand cmd False print s))) =
             writes (trace s) @ ws
             @ (if fst (enterCommandMode s) then [(True, cmd @ CRLF)] else [])
           \<and> set ws \<subseteq> {(False, c_cmd_break @ CRLF), (False, ''MC'' @ CRLF)})"
proof (intro conjI)
  show "fst (sendCommand cmd False print s) \<longrightarrow> m_cmd_mode (snd (sendCommand cmd False print s))"
    by (simp add: sendCommand_default_mode)
  show "fst (start s) \<longrightarrow> \<not> m_cmd_mode (snd (start s))"
    by (simp add: start_eq)
  let ?ws = "if m_cmd_mode s then []
      else replicate (if fst (sendCommand c_cmd_break True True s) then 1 else 2)
             (False, c_cmd_break @ CRLF)
           @ replicate (if fst (sendBreak s) then 1 else 0) (False, ''MC'' @ CRLF)"
  have "writes (trace (snd (sendCommand cmd False print s))) =
          writes (trace s) @ ?ws
          @ (if fst (enterCommandMode s) then [(True, cmd @ CRLF)] else [])"
    by (simp add: sendCommand_default_writes enterCommandMode_writes)
  moreover have "set ?ws \<subseteq> {(False, c_cmd_break @ CRLF), (False, ''MC'' @ CRLF)}"
    by auto
  ultimately show "\<exists>ws. writes (trace (snd (sendCommand cmd False print s))) =
             writes (trace s) @ ws
             @ (if fst (enterCommandMode s) then [(True, cmd @ CRLF)] else [])
           \<and> set ws \<subseteq> {(False, c_cmd_break @ CRLF), (False, ''MC'' @ CRLF)}"
    by blast
qed

text \<open>
  A device that acknowledges the break, the mode change and the command: both a
  configuration command and a start succeed from the initial state.
\<close>

theorem mode_invariant_witness:
  "fst (sendCommand ''SAVE,ALL'' False False (facing [ack, ack, ack]))
   \<and> m_cmd_mode (snd (sendCommand ''SAVE,ALL'' False False (facing [ack, ack, ack])))
   \<and> fst (start (facing [ack, ack, ack]))
   \<and> \<not> m_cmd_mode (snd (start (facing [ack, ack, ack])))"
proof -
  have h1: "fst (sendCommand ''SAVE,ALL'' False False (facing [ack, ack, ack]))"
    by (simp add: driver_eval)
  have h2: "fst (start (facing [ack, ack, ack]))"
    by (simp add: driver_eval)
  from mode_invariant [of "''SAVE,ALL''" False "facing [ack, ack, ack]"] h1 h2
  show ?thesis by blast
qed

section \<open>The break signal and the mode entry\<close>

text \<open>
  Claim C5. \<open>sendBreak\<close> makes one attempt, and a second one exactly when the first
  failed: it writes the break line once if the first attempt succeeds and twice
  otherwise, never more; it succeeds exactly when one of the attempts made does; and it
  ends in the state the last attempt made leaves.
\<close>

theorem break_retry_of_one:
  "fst (sendBreak s) =
     (fst (sendCommand c_cmd_break True (bool_of_double 2) s)
      \<or> fst (sendCommand c_cmd_break True (bool_of_double 2)
              (snd (sendCommand c_cmd_break True (bool_of_double 2) s))))
   \<and> writes (trace (snd (sendBreak s))) =
       writes (trace s) @
       replicate (if fst (sendCommand c_cmd_break True (bool_of_double 2) s) then 1 else 2)
         (m_cmd_mode s, c_cmd_break @ CRLF)
   \<and> snd (sendBreak s) =
       (if fst (sendCommand c_cmd_break True (bool_of_double 2) s)
        then snd (sendCommand c_cmd_break True (bool_of_double 2) s)
        else snd (sendCommand c_cmd_break True (bool_of_double 2)
                   (snd (sendCommand c_cmd_break True (bool_of_double 2) s))))"
  by (simp add: sendBreak_writes) (simp add: sendBreak_eq)

text \<open>
  Claim C10. The recursion through \<open>sendCommand\<close>, \<open>enterCommandMode\<close> and \<open>sendBreak\<close>
  is well-founded on every argument. The \<open>2.0\<close> passed for \<open>ignore\<close> is true; a call with
  \<open>ignore\<close> set is a write followed by a read and enters no other function of the three;
  \<open>sendBreak\<close> makes only such calls. So one call of \<open>sendCommand\<close> puts on the wire at
  most two break lines and one \<open>MC\<close> line, those of a single mode entry, and then at most
  once its own line.
\<close>

theorem mode_entry_recursion_bounded:
  "All sendCommand_enterCommandMode_sendBreak_dom
   \<and> bool_of_double 2
   \<and> sendCommand cmd True print s = readUntil (''OK'' @ CRLF) 1 print (write_cmd cmd s)
   \<and> sendBreak s =
       (case sendCommand c_cmd_break True True s of
          (False, s1) \<Rightarrow> sendCommand c_cmd_break True True s1
        | (True, s1) \<Rightarrow> (True, s1))
   \<and> (\<exists>n m k b. n \<le> 2 \<and> m \<le> 1 \<and> k \<le> 1 \<and>
         writes (trace (snd (sendCommand cmd ignore print s))) =
           writes (trace s) @ replicate n (False, c_cmd_break @ CRLF)
           @ replicate m (False, ''MC'' @ CRLF) @ replicate k (b, cmd @ CRLF))"
proof (intro conjI)
  show "All sendCommand_enterCommandMode_sendBreak_dom"
    by (relation "measure (\<lambda>x. case x of
               Inl (cmd, ignore, print, s) \<Rightarrow> if ignore then 0 else 3
             | Inr (Inl s) \<Rightarrow> 2
             | Inr (Inr s) \<Rightarrow> (1::nat))")
       (auto simp: bool_of_double_def)
  show "bool_of_double 2" by simp
  show "sendCommand cmd True print s = readUntil (''OK'' @ CRLF) 1 print (write_cmd cmd s)"
    by (rule sendCommand_bypass)
  show "sendBreak s =
       (case sendCommand c_cmd_break True True s of
          (False, s1) \<Rightarrow> sendCommand c_cmd_break True True s1
        | (True, s1) \<Rightarrow> (True, s1))"
    by (simp add: sendBreak.simps split: prod.splits bool.splits)
  show "\<exists>n m k b. n \<le> 2 \<and> m \<le> 1 \<and> k \<le> 1 \<and>
         writes (trace (snd (sendCommand cmd ignore print s))) =
           writes (trace s) @ replicate n (False, c_cmd_break @ CRLF)
           @ replicate m (False, ''MC'' @ CRLF) @ replicate k (b, cmd @ CRLF)"
    by (rule sendCommand_writes_bound)
qed

text \<open>
  Claim C4, as the code has it. The break literal has six bytes, and an attempt writes it
  followed by CR LF, as \<open>write\<close> does with every command. The acknowledgment is awaited
  as after every command: the attempt starts a timer of one second and scans the input
  for \<open>OK\<close> CR LF. When fewer bytes than the buffer holds are pending or arrive during
  the wait and \<open>OK\<close> CR LF is not among them, the attempt fails; so it fails when no
  reply arrives. When nothing is pending and the first read delivers fewer bytes than the
  buffer holds, none of them NUL, that end with \<open>OK\<close> CR LF, the attempt succeeds.
\<close>

theorem break_attempt_awaits_ack:
  "length c_cmd_break = 6
   \<and> writes (trace (snd (sendCommand c_cmd_break True (bool_of_double 2) s))) =
       writes (trace s) @ [(m_cmd_mode s, c_cmd_break @ CRLF)]
   \<and> timers (trace (snd (sendCommand c_cmd_break True (bool_of_double 2) s))) =
       timers (trace s) @ [1]
   \<and> (length (sock_rxq s @ arrived (sock_rx s)) < sizeof_bfr
        \<and> \<not> (\<exists>pre post. sock_rxq s @ arrived (sock_rx s) = pre @ (''OK'' @ CRLF) @ post)
       \<longrightarrow> \<not> fst (sendCommand c_cmd_break True (bool_of_double 2) s))
   \<and> (sock_rxq s = [] \<and> sock_rx s = Readable bs # rx \<and> length bs < sizeof_bfr
        \<and> CHR 0x00 \<notin> set bs \<and> endsWith bs (''OK'' @ CRLF)
       \<longrightarrow> fst (sendCommand c_cmd_break True (bool_of_double 2) s))"
proof (intro conjI impI)
  let ?scan = "readUntil_loop (''OK'' @ CRLF) [] (sock_rxq s) (sock_rx s)"
  show "length c_cmd_break = 6" by (simp add: c_cmd_break_def)
  show "writes (trace (snd (sendCommand c_cmd_break True (bool_of_double 2) s))) =
       writes (trace s) @ [(m_cmd_mode s, c_cmd_break @ CRLF)]"
    by simp
  show "timers (trace (snd (sendCommand c_cmd_break True (bool_of_double 2) s))) =
       timers (trace s) @ [1]"
    by simp
  have eq: "fst (sendCommand c_cmd_break True (bool_of_double 2) s) =
       (case fst ?scan of Scan_true \<Rightarrow> True | Scan_false \<Rightarrow> False
        | Scan_undefined \<Rightarrow> overread_match s)"
    by (simp add: sendCommand_bypass readUntil_fst split: scan.splits)
  show "\<not> fst (sendCommand c_cmd_break True (bool_of_double 2) s)"
    if h: "length (sock_rxq s @ arrived (sock_rx s)) < sizeof_bfr
        \<and> \<not> (\<exists>pre post. sock_rxq s @ arrived (sock_rx s) = pre @ (''OK'' @ CRLF) @ post)"
  proof
    assume ok: "fst (sendCommand c_cmd_break True (bool_of_double 2) s)"
    from h have "fst ?scan \<noteq> Scan_undefined"
      using readUntil_loop_defined [of "[]" "sock_rxq s" "sock_rx s" "''OK'' @ CRLF"] by simp
    with ok eq have "fst ?scan = Scan_true"
      by (cases "fst ?scan") simp_all
    from readUntil_loop_found_in_input [OF this] h show False by simp
  qed
  show "fst (sendCommand c_cmd_break True (bool_of_double 2) s)"
    if h: "sock_rxq s = [] \<and> sock_rx s = Readable bs # rx \<and> length bs < sizeof_bfr
        \<and> CHR 0x00 \<notin> set bs \<and> endsWith bs (''OK'' @ CRLF)"
  proof -
    from h have "readUntil_loop (''OK'' @ CRLF) [] [] (Readable bs # rx) = (Scan_true, bs, [], rx)"
      by (intro readUntil_loop_first_read) simp_all
    with h have "?scan = (Scan_true, bs, [], rx)"
      by simp
    with eq show ?thesis by simp
  qed
qed

text \<open>
  A silent device, with nothing pending, makes the attempt fail; a device whose first
  read is the acknowledgment makes it succeed.
\<close>

theorem break_attempt_awaits_ack_witness:
  "sock_rxq (facing []) @ arrived (sock_rx (facing [])) = []
   \<and> \<not> fst (sendCommand c_cmd_break True (bool_of_double 2) (facing []))
   \<and> sock_rxq (facing [ack]) = []
   \<and> sock_rx (facing [ack]) = Readable (''OK'' @ CRLF) # []
   \<and> length (''OK'' @ CRLF) < sizeof_bfr
   \<and> CHR 0x00 \<notin> set (''OK'' @ CRLF)
   \<and> endsWith (''OK'' @ CRLF) (''OK'' @ CRLF)
   \<and> fst (sendCommand c_cmd_break True (bool_of_double 2) (facing [ack]))"
proof -
  have e: "sock_rxq (facing []) @ arrived (sock_rx (facing [])) = []"
    by (simp add: driver_eval)
  then have h1: "length (sock_rxq (facing []) @ arrived (sock_rx (facing []))) < sizeof_bfr
      \<and> \<not> (\<exists>pre post. sock_rxq (facing []) @ arrived (sock_rx (facing [])) =
                        pre @ (''OK'' @ CRLF) @ post)"
    by (simp add: sizeof_bfr_def)
  have h2: "sock_rxq (facing [ack]) = [] \<and> sock_rx (facing [ack]) = Readable (''OK'' @ CRLF) # []
      \<and> length (''OK'' @ CRLF) < sizeof_bfr \<and> CHR 0x00 \<notin> set (''OK'' @ CRLF)
      \<and> endsWith (''OK'' @ CRLF) (''OK'' @ CRLF)"
    by (simp add: driver_eval)
  from break_attempt_awaits_ack [where s = "facing []"] h1
  have f: "\<not> fst (sendCommand c_cmd_break True (bool_of_double 2) (facing []))"
    by blast
  from break_attempt_awaits_ack
         [where s = "facing [ack]" and bs = "''OK'' @ CRLF" and rx = "[]"] h2
  have t: "fst (sendCommand c_cmd_break True (bool_of_double 2) (facing [ack]))"
    by blast
  from e f h2 t show ?thesis by blast
qed

text \<open>
  The acknowledgment has to stand at the end of what a read leaves in the buffer: with a
  byte behind it in the same read, or behind a NUL, and nothing more to come, the attempt
  fails.
\<close>

lemma break_attempt_unmatched_examples:
  "\<not> fst (sendCommand c_cmd_break True (bool_of_double 2)
            (facing [Readable (''OK'' @ CRLF @ ''>'')]))"
  "\<not> fst (sendCommand c_cmd_break True (bool_of_double 2)
            (facing [Readable (CHR 0x00 # ''OK'' @ CRLF)]))"
  by (simp_all add: driver_eval)

text \<open>
  Against the claim as stated: facing a silent device, one attempt puts eight bytes on
  the wire, starts the acknowledgment timer, reports the missing \<open>OK\<close> and fails; and
  so does \<open>sendBreak\<close> as a whole.
\<close>

theorem break_attempt_counterexample:
  "sendCommand c_cmd_break True (bool_of_double 2) (facing []) =
     (False,
      (facing [])\<lparr>trace :=
        [Sock_write False (''K1W%!Q'' @ CRLF), Spew_sent (''K1W%!Q'' @ CRLF),
         Timer_start 1, Spew_recv_fail [] (''OK'' @ CRLF)]\<rparr>)
   \<and> length (''K1W%!Q'' @ CRLF) = 8
   \<and> \<not> fst (sendBreak (facing []))"
  by (simp add: driver_eval)

text \<open>
  Claim C8, as the code has it. \<open>sendCommand\<close> has no timeout parameter: the wait for the
  acknowledgment of \<open>MC\<close> and the wait for the acknowledgment of a command sent on the
  default path both start a timer of one second, and so does every wait of the mode
  entry.
\<close>

theorem ack_timeouts_equal:
  "timers (trace (snd (sendCommand ''MC'' (bool_of_double 2) True s))) = timers (trace s) @ [1]
   \<and> timers (trace (snd (sendCommand cmd False print s))) =
       timers (trace (snd (enterCommandMode s)))
       @ (if fst (enterCommandMode s) then [1] else [])
   \<and> (\<exists>n. timers (trace (snd (enterCommandMode s))) = timers (trace s) @ replicate n 1)"
  using enterCommandMode_timers [of s] by (simp add: sendCommand_default_timers)

text \<open>
  Against the claim as stated: the first configuration command of the setup, sent from
  measurement mode to a device that acknowledges everything, starts three timers, for
  the break, for \<open>MC\<close> and for the command; the second is not shorter than the third.
\<close>

theorem ack_timeouts_counterexample:
  "timers (trace (snd (sendCommand ''SETDEFAULT,ALL'' False False (facing [ack, ack, ack]))))
     = [1, 1, 1]
   \<and> writes (trace (snd (sendCommand ''SETDEFAULT,ALL'' False False (facing [ack, ack, ack]))))
     = [(False, ''K1W%!Q'' @ CRLF), (False, ''MC'' @ CRLF), (True, ''SETDEFAULT,ALL'' @ CRLF)]
   \<and> \<not> (timers (trace (snd (sendCommand ''SETDEFAULT,ALL'' False False
                                  (facing [ack, ack, ack])))) ! 1
         < timers (trace (snd (sendCommand ''SETDEFAULT,ALL'' False False
                                  (facing [ack, ack, ack])))) ! 2)"
  by (simp add: driver_eval)

section \<open>The read buffer\<close>

text \<open>
  The part of the claim that the code keeps. The buffer holds 256 bytes; a pass that
  starts with the cursor within the capacity ends with it within the capacity, and
  \<open>readUntil\<close> starts at cursor 0, so the loop ends with it within the capacity. Every
  byte stored lies below the cursor, so none is stored beyond the array. The check
  \<open>offset > sizeof(bfr)\<close> never fires: a pass that ends in \<open>break\<close> is one whose wait
  expired.
\<close>

lemma readUntil_cursor_within_capacity:
  "sizeof_bfr = 256"
  "length bfr \<le> sizeof_bfr \<Longrightarrow>
     length (fst (snd (readUntil_pass sequence bfr rxq sl))) \<le> sizeof_bfr"
  "length (fst (snd (readUntil_loop sequence [] rxq rx))) \<le> sizeof_bfr"
  "length bfr \<le> sizeof_bfr \<Longrightarrow> fst (readUntil_pass sequence bfr rxq sl) = Break \<Longrightarrow>
     sl = Expired"
  by (simp_all add: sizeof_bfr_def [symmetric] readUntil_pass_bound readUntil_loop_bound
                    readUntil_pass_no_overrun)

text \<open>
  Claim C9, at an input where the code departs from it. The device sends 256 bytes \<open>x\<close>
  and then the acknowledgment. The read stores the 256 bytes, the cursor is at the
  capacity and the check \<open>offset > sizeof(bfr)\<close> does not fire; the suffix test is then run
  on an array that holds no NUL, so the conversion to a string reads past the array. The
  scan does not return failure there: what it does is not defined, and the log of
  \<open>readUntil\<close> ends with that read.
\<close>

theorem scan_at_capacity_reads_past_buffer:
  "readUntil_loop (''OK'' @ CRLF) [] [] [Readable (replicate 256 (CHR ''x'')), ack] =
     (Scan_undefined, replicate 256 (CHR ''x''), [], [ack])
   \<and> length (replicate 256 (CHR ''x'')) = sizeof_bfr
   \<and> readUntil_pass (''OK'' @ CRLF) [] [] (Readable (replicate 256 (CHR ''x''))) =
       (Reads_past_bfr, replicate 256 (CHR ''x''), [])
   \<and> trace (snd (readUntil (''OK'' @ CRLF) 1 False
                   (facing [Readable (replicate 256 (CHR ''x'')), ack]))) =
       [Timer_start 1, Read_past_bfr]"
  by (simp add: readUntil_def Let_def sock_read_def nul_terminated_def sizeof_bfr_def
                emit_def facing_def Driver_def setSamplingRate_def)

section \<open>The setup sequence\<close>

lemma sequencer_Cons:
  "sequencer (f # fs) s = (if fst (f s) then sequencer fs (snd (f s)) else (False, snd (f s)))"
  by (simp split: prod.splits bool.splits)

lemma sequencer_snoc:
  "sequencer (fs @ [f]) s =
     (if fst (sequencer fs s) then f (snd (sequencer fs s)) else sequencer fs s)"
proof (induction fs arbitrary: s)
  case Nil
  show ?case by (simp split: prod.splits bool.splits)
next
  case (Cons g gs)
  show ?case
    by (simp only: append_Cons sequencer_Cons Cons.IH) simp
qed

lemma sequencer_failed: "\<not> fst (sequencer fs s) \<Longrightarrow> sequencer (fs @ gs) s = sequencer fs s"
proof (induction fs arbitrary: s)
  case Nil
  then show ?case by simp
next
  case (Cons f fs)
  then show ?case
    by (simp only: append_Cons sequencer_Cons split: if_splits) auto
qed

lemma sequencer_abort:
  "k < length steps \<Longrightarrow> fst (sequencer (take k steps) s) \<Longrightarrow>
   \<not> fst ((steps ! k) (snd (sequencer (take k steps) s))) \<Longrightarrow>
   sequencer steps s = (False, snd ((steps ! k) (snd (sequencer (take k steps) s))))"
proof (induction steps arbitrary: k s)
  case Nil
  then show ?case by simp
next
  case (Cons f fs)
  show ?case
  proof (cases k)
    case 0
    with Cons.prems have "\<not> fst (f s)" by simp
    with 0 show ?thesis by (simp only: sequencer_Cons take_0 sequencer.simps(1) snd_conv nth_Cons_0 if_False)
  next
    case (Suc j)
    show ?thesis
    proof (cases "fst (f s)")
      case False
      with Suc Cons.prems(2) show ?thesis
        by (simp add: sequencer_Cons del: sequencer.simps)
    next
      case True
      with Suc Cons.prems have
        "j < length fs" "fst (sequencer (take j fs) (snd (f s)))"
        "\<not> fst ((fs ! j) (snd (sequencer (take j fs) (snd (f s)))))"
        by (simp_all add: sequencer_Cons del: sequencer.simps)
      from Cons.IH [OF this] True Suc show ?thesis
        by (simp add: sequencer_Cons del: sequencer.simps)
    qed
  qed
qed

lemma Driver_setup_sequencer: "Driver_setup s = sequencer setup_steps s"
  by (simp add: Driver_setup_def setup_steps_def split: prod.splits bool.splits)

lemma setDVL_eq:
  "setDVL s = sendCommand (''SETDVL,SR='' @ fmt_f (m_sampling_rate s) @ '',SA=''
                           @ fmt_f (m_salinity s)) False False s"
  by (simp add: setDVL_def Let_def split: prod.splits bool.splits)

lemma save_eq:
  "save s =
     (if fst (sendCommand ''SAVE,ALL'' False False s) then sendCommand ''SAVE,ALL'' False False s
      else (False, snd (sendCommand ''GETERROR'' False False
                         (snd (sendCommand ''SAVE,ALL'' False False s)))))"
  by (simp add: save_def split: prod.splits bool.splits)

lemma take_6_setup_steps:
  "take 6 setup_steps =
     [login, enterCommandMode, sendCommand ''SETDEFAULT,ALL'' False False,
      sendCommand (''SETINST,LED='' @ [CHR 0x22] @ ''OFF'' @ [CHR 0x22]) False False,
      setTime] @ [setDVL]"
  by (simp add: setup_steps_def)

lemma before_save_mode:
  assumes "fst (sequencer (take 6 setup_steps) s)"
  shows "m_cmd_mode (snd (sequencer (take 6 setup_steps) s))"
proof -
  let ?pre = "[login, enterCommandMode, sendCommand ''SETDEFAULT,ALL'' False False,
      sendCommand (''SETINST,LED='' @ [CHR 0x22] @ ''OFF'' @ [CHR 0x22]) False False,
      setTime]"
  from assms have *: "fst (sequencer (?pre @ [setDVL]) s)"
    by (simp only: take_6_setup_steps)
  have ok: "fst (sequencer ?pre s)"
  proof (rule ccontr)
    assume n: "\<not> fst (sequencer ?pre s)"
    then have "sequencer (?pre @ [setDVL]) s = sequencer ?pre s"
      by (rule sequencer_failed)
    with * n show False by (simp only:)
  qed
  with * have "fst (setDVL (snd (sequencer ?pre s)))"
    by (simp only: sequencer_snoc if_True)
  then have "m_cmd_mode (snd (setDVL (snd (sequencer ?pre s))))"
    by (simp only: setDVL_eq sendCommand_default_mode)
  with ok show ?thesis
    by (simp only: take_6_setup_steps sequencer_snoc if_True)
qed

lemma save_failure_writes:
  assumes "m_cmd_mode s" and "\<not> fst (sendCommand ''SAVE,ALL'' False False s)"
  shows "\<not> fst (save s)"
    and "writes (trace (snd (save s))) =
           writes (trace s) @ [(True, ''SAVE,ALL'' @ CRLF), (True, ''GETERROR'' @ CRLF)]"
proof -
  from assms(2) show "\<not> fst (save s)" by (simp add: save_eq)
  let ?s1 = "snd (sendCommand ''SAVE,ALL'' False False s)"
  from assms(1) have m1: "m_cmd_mode ?s1" and w1: "writes (trace ?s1) = writes (trace s) @ [(True, ''SAVE,ALL'' @ CRLF)]"
    by (simp_all add: sendCommand_in_command_mode)
  from m1 have "writes (trace (snd (sendCommand ''GETERROR'' False False ?s1))) =
      writes (trace ?s1) @ [(True, ''GETERROR'' @ CRLF)]"
    by (simp add: sendCommand_in_command_mode)
  with w1 assms(2) show "writes (trace (snd (save s))) =
           writes (trace s) @ [(True, ''SAVE,ALL'' @ CRLF), (True, ''GETERROR'' @ CRLF)]"
    by (simp add: save_eq)
qed

text \<open>
  Claim C2. \<open>setup\<close> is the sequencer over the eight steps in the order login, enter
  command mode, reset to defaults, indicator off, clock, sampling rate and salinity, save,
  start. If the steps before step \<open>k\<close> succeed and step \<open>k\<close> fails, \<open>setup\<close> returns
  failure in the very state that step \<open>k\<close> leaves, so nothing is done after it. If the
  first six steps succeed and \<open>SAVE,ALL\<close> is not acknowledged, the save step writes
  \<open>SAVE,ALL\<close> and then \<open>GETERROR\<close>, whose result is dropped, and these are the last two
  lines on the wire when \<open>setup\<close> returns failure.
\<close>

theorem setup_abort_law:
  "Driver_setup s = sequencer setup_steps s
   \<and> length setup_steps = 8
   \<and> (\<forall>k<8. fst (sequencer (take k setup_steps) s)
          \<and> \<not> fst ((setup_steps ! k) (snd (sequencer (take k setup_steps) s)))
        \<longrightarrow> Driver_setup s =
              (False, snd ((setup_steps ! k) (snd (sequencer (take k setup_steps) s)))))
   \<and> (fst (sequencer (take 6 setup_steps) s)
        \<and> \<not> fst (sendCommand ''SAVE,ALL'' False False (snd (sequencer (take 6 setup_steps) s)))
        \<longrightarrow> Driver_setup s = (False, snd (save (snd (sequencer (take 6 setup_steps) s))))
            \<and> writes (trace (snd (Driver_setup s))) =
                writes (trace (snd (sequencer (take 6 setup_steps) s)))
                @ [(True, ''SAVE,ALL'' @ CRLF), (True, ''GETERROR'' @ CRLF)])"
proof (intro conjI allI impI)
  show "Driver_setup s = sequencer setup_steps s" by (rule Driver_setup_sequencer)
  show len: "length setup_steps = 8" by (simp add: setup_steps_def)
  show "Driver_setup s =
          (False, snd ((setup_steps ! k) (snd (sequencer (take k setup_steps) s))))"
    if "k < 8" and "fst (sequencer (take k setup_steps) s)
          \<and> \<not> fst ((setup_steps ! k) (snd (sequencer (take k setup_steps) s)))" for k
    using that len by (simp add: Driver_setup_sequencer sequencer_abort)
  assume h: "fst (sequencer (take 6 setup_steps) s)
        \<and> \<not> fst (sendCommand ''SAVE,ALL'' False False (snd (sequencer (take 6 setup_steps) s)))"
  let ?s6 = "snd (sequencer (take 6 setup_steps) s)"
  from h have m: "m_cmd_mode ?s6" by (simp add: before_save_mode)
  have step: "setup_steps ! 6 = save" by (simp add: setup_steps_def)
  from h m have f: "\<not> fst (save ?s6)" by (simp add: save_failure_writes)
  from h f step len show r: "Driver_setup s = (False, snd (save ?s6))"
    using sequencer_abort [of 6 setup_steps s] by (simp add: Driver_setup_sequencer)
  from h m show "writes (trace (snd (Driver_setup s))) =
                writes (trace ?s6) @ [(True, ''SAVE,ALL'' @ CRLF), (True, ''GETERROR'' @ CRLF)]"
    by (simp add: r save_failure_writes)
qed

text \<open>
  A device that goes through the login and acknowledges six commands, then falls silent:
  the first six steps succeed and the save fails. A device that is silent from the start:
  the login fails.
\<close>

theorem setup_abort_law_witness:
  "fst (sequencer (take 6 setup_steps) (facing cooperative))
   \<and> \<not> fst (sendCommand ''SAVE,ALL'' False False
              (snd (sequencer (take 6 setup_steps) (facing cooperative))))
   \<and> Driver_setup (facing cooperative) =
       (False, snd (save (snd (sequencer (take 6 setup_steps) (facing cooperative)))))
   \<and> writes (trace (snd (Driver_setup (facing cooperative)))) =
       writes (trace (snd (sequencer (take 6 setup_steps) (facing cooperative))))
       @ [(True, ''SAVE,ALL'' @ CRLF), (True, ''GETERROR'' @ CRLF)]
   \<and> (0::nat) < 8
   \<and> fst (sequencer (take 0 setup_steps) (facing []))
   \<and> \<not> fst ((setup_steps ! 0) (snd (sequencer (take 0 setup_steps) (facing []))))
   \<and> Driver_setup (facing []) =
       (False, snd ((setup_steps ! 0) (snd (sequencer (take 0 setup_steps) (facing [])))))"
proof -
  have h1: "fst (sequencer (take 6 setup_steps) (facing cooperative))"
    by (simp add: driver_eval setup_eval)
  have h2: "\<not> fst (sendCommand ''SAVE,ALL'' False False
              (snd (sequencer (take 6 setup_steps) (facing cooperative))))"
    by (simp add: driver_eval setup_eval)
  have h3: "fst (sequencer (take 0 setup_steps) (facing []))"
    by simp
  have h4: "\<not> fst ((setup_steps ! 0) (snd (sequencer (take 0 setup_steps) (facing []))))"
    by (simp add: driver_eval setup_eval)
  have h5: "(0::nat) < 8" by simp
  from setup_abort_law [of "facing cooperative"] h1 h2
  have a: "Driver_setup (facing cooperative) =
       (False, snd (save (snd (sequencer (take 6 setup_steps) (facing cooperative)))))
   \<and> writes (trace (snd (Driver_setup (facing cooperative)))) =
       writes (trace (snd (sequencer (take 6 setup_steps) (facing cooperative))))
       @ [(True, ''SAVE,ALL'' @ CRLF), (True, ''GETERROR'' @ CRLF)]"
    by blast
  from setup_abort_law [of "facing []"] h3 h4 h5
  have b: "Driver_setup (facing []) =
       (False, snd ((setup_steps ! 0) (snd (sequencer (take 0 setup_steps) (facing [])))))"
    by blast
  from h1 h2 h3 h4 h5 a b show ?thesis by blast
qed

text \<open>
  A complete run, as a check of the embedding: facing a device that goes through the
  login and acknowledges all eight commands, \<open>setup\<close> succeeds, ends in measurement
  mode, and has put these lines on the wire.
\<close>

lemma setup_run_example:
  "fst (Driver_setup (facing (cooperative @ [ack, ack])))
   \<and> \<not> m_cmd_mode (snd (Driver_setup (facing (cooperative @ [ack, ack]))))
   \<and> map snd (writes (trace (snd (Driver_setup (facing (cooperative @ [ack, ack])))))) =
     [''nortek'' @ CRLF, ''nortek'' @ CRLF, ''K1W%!Q'' @ CRLF, ''MC'' @ CRLF,
      ''SETDEFAULT,ALL'' @ CRLF, ''SETINST,LED='' @ [CHR 0x22] @ ''OFF'' @ [CHR 0x22] @ CRLF,
      ''SETCLOCK,YEAR=2016,MONTH=3,DAY=14,HOUR=9,MINUTE=26,SECOND=53'' @ CRLF,
      ''SETDVL,SR=5.000000,SA=35.000000'' @ CRLF,
      ''SAVE,ALL'' @ CRLF, ''START'' @ CRLF]"
  by (simp add: Driver_setup_def driver_eval setup_eval fmt_eval)

section \<open>The power level\<close>

lemma start_writes_something:
  "\<exists>ws. ws \<noteq> [] \<and> writes (trace (snd (start s))) = writes (trace s) @ ws"
proof (cases "m_cmd_mode s")
  case True
  then have "writes (trace (snd (start s))) = writes (trace s) @ [(True, ''START'' @ CRLF)]"
    by (simp add: start_eq sendCommand_in_command_mode)
  then show ?thesis by blast
next
  case False
  let ?ws = "replicate (if fst (sendCommand c_cmd_break True True s) then 1 else 2)
               (False, c_cmd_break @ CRLF)
             @ replicate (if fst (sendBreak s) then 1 else 0) (False, ''MC'' @ CRLF)
             @ (if fst (enterCommandMode s) then [(True, ''START'' @ CRLF)] else [])"
  from False have "writes (trace (snd (start s))) = writes (trace s) @ ?ws"
    by (simp add: start_eq sendCommand_default_writes enterCommandMode_writes)
  moreover have "?ws \<noteq> []" by simp
  ultimately show ?thesis by blast
qed

lemma setPowerLevel_eq:
  "setPowerLevel level s =
     (fst (sendCommand (''SETBT,PL='' @ fmt_f (powerLevelToDecibels level)) False False s),
      snd (start (snd (sendCommand (''SETBT,PL='' @ fmt_f (powerLevelToDecibels level))
                         False False s))))"
  by (cases level) (simp_all add: setPowerLevel_def Let_def split: prod.splits)

text \<open>
  Claim C7. The command is \<open>SETBT,PL=\<close> followed by the decibel value of the level under
  the specification's mapping, formatted with six decimals: \<open>-20.000000\<close>, \<open>-10.000000\<close>
  or \<open>0.000000\<close>. The result is that of the command alone; the state is the one that
  \<open>start\<close> leaves when run after the command, whatever the command returned. Seen on the
  wire: \<open>start\<close> always writes at least one line after the command's part, and from
  command mode the two lines written are the command and \<open>START\<close>.
\<close>

theorem setPowerLevel_behaviour:
  "setPowerLevel level s =
     (fst (sendCommand (''SETBT,PL='' @ fmt_f (powerLevelToDecibels level)) False False s),
      snd (start (snd (sendCommand (''SETBT,PL='' @ fmt_f (powerLevelToDecibels level))
                         False False s))))
   \<and> fmt_f (powerLevelToDecibels PL_MIN) = ''-20.000000''
   \<and> fmt_f (powerLevelToDecibels PL_MED) = ''-10.000000''
   \<and> fmt_f (powerLevelToDecibels PL_MAX) = ''0.000000''
   \<and> (m_cmd_mode s \<longrightarrow>
        writes (trace (snd (setPowerLevel level s))) =
          writes (trace s)
          @ [(True, ''SETBT,PL='' @ fmt_f (powerLevelToDecibels level) @ CRLF),
             (True, ''START'' @ CRLF)])
   \<and> (\<exists>ws. ws \<noteq> [] \<and>
         writes (trace (snd (setPowerLevel level s))) =
           writes (trace (snd (sendCommand
              (''SETBT,PL='' @ fmt_f (powerLevelToDecibels level)) False False s))) @ ws)"
proof (intro conjI impI)
  show "setPowerLevel level s =
     (fst (sendCommand (''SETBT,PL='' @ fmt_f (powerLevelToDecibels level)) False False s),
      snd (start (snd (sendCommand (''SETBT,PL='' @ fmt_f (powerLevelToDecibels level))
                         False False s))))"
    by (rule setPowerLevel_eq)
  show "fmt_f (powerLevelToDecibels PL_MIN) = ''-20.000000''"
    "fmt_f (powerLevelToDecibels PL_MED) = ''-10.000000''"
    "fmt_f (powerLevelToDecibels PL_MAX) = ''0.000000''"
    by (simp_all add: fmt_f_power)
  show "writes (trace (snd (setPowerLevel level s))) =
          writes (trace s)
          @ [(True, ''SETBT,PL='' @ fmt_f (powerLevelToDecibels level) @ CRLF),
             (True, ''START'' @ CRLF)]" if "m_cmd_mode s"
    using that by (simp add: setPowerLevel_eq start_eq sendCommand_in_command_mode)
  show "\<exists>ws. ws \<noteq> [] \<and>
         writes (trace (snd (setPowerLevel level s))) =
           writes (trace (snd (sendCommand
              (''SETBT,PL='' @ fmt_f (powerLevelToDecibels level)) False False s))) @ ws"
    by (simp add: setPowerLevel_eq start_writes_something)
qed

text \<open>
  In command mode, facing a device that has fallen silent, the medium level: the command
  fails and \<open>START\<close> is written all the same.
\<close>

theorem setPowerLevel_behaviour_witness:
  "m_cmd_mode (snd (enterCommandMode (facing [ack, ack])))
   \<and> \<not> fst (setPowerLevel PL_MED (snd (enterCommandMode (facing [ack, ack]))))
   \<and> writes (trace (snd (setPowerLevel PL_MED (snd (enterCommandMode (facing [ack, ack])))))) =
       writes (trace (snd (enterCommandMode (facing [ack, ack]))))
       @ [(True, ''SETBT,PL=-10.000000'' @ CRLF), (True, ''START'' @ CRLF)]"
proof -
  let ?s = "snd (enterCommandMode (facing [ack, ack]))"
  let ?cmd = "''SETBT,PL='' @ fmt_f (powerLevelToDecibels PL_MED)"
  note t = setPowerLevel_behaviour [of PL_MED ?s]
  have h: "m_cmd_mode ?s"
    by (simp add: driver_eval)
  have rx: "sock_rx ?s = []" "sock_rxq ?s = []"
    by (simp_all add: driver_eval)
  from h have "fst (sendCommand ?cmd False False ?s) =
      (case fst (readUntil_loop (''OK'' @ CRLF) [] (sock_rxq ?s) (sock_rx ?s)) of
         Scan_true \<Rightarrow> True | Scan_false \<Rightarrow> False | Scan_undefined \<Rightarrow> overread_match ?s)"
    by (simp add: sendCommand_in_command_mode readUntil_fst split: scan.splits)
  with rx have f: "\<not> fst (sendCommand ?cmd False False ?s)"
    by simp
  from t have "setPowerLevel PL_MED ?s =
      (fst (sendCommand ?cmd False False ?s), snd (start (snd (sendCommand ?cmd False False ?s))))"
    by blast
  then have "fst (setPowerLevel PL_MED ?s) = fst (sendCommand ?cmd False False ?s)"
    by (simp only: fst_conv)
  with f have r: "\<not> fst (setPowerLevel PL_MED ?s)"
    by simp
  from t have fm: "fmt_f (powerLevelToDecibels PL_MED) = ''-10.000000''"
    by blast
  from t h have "writes (trace (snd (setPowerLevel PL_MED ?s))) =
      writes (trace ?s)
      @ [(True, ''SETBT,PL='' @ fmt_f (powerLevelToDecibels PL_MED) @ CRLF),
         (True, ''START'' @ CRLF)]"
    by blast
  then have w: "writes (trace (snd (setPowerLevel PL_MED ?s))) =
      writes (trace ?s) @ [(True, ''SETBT,PL=-10.000000'' @ CRLF), (True, ''START'' @ CRLF)]"
    by (simp only: fm append_Cons append_Nil append_assoc)
  from h r w show ?thesis by blast
qed

section \<open>The login\<close>

lemma login_eq:
  "fst (login s) =
     fst (readUntil (''Command Interface'' @ [CHR 0x0D] @ CRLF) 2 True
            (snd (replyLogin ''Password: '' (snd (replyLogin ''Username: '' s)))))"
  by (simp add: login_def Let_def split: prod.splits bool.splits)

text \<open>
  Claim C3, at an input where the code departs from it. Neither prompt arrives in time,
  so both prompt waits fail and no credential is written; the banner then arrives and
  \<open>login\<close> returns success.
\<close>

theorem login_ignores_prompt_waits:
  "\<not> fst (replyLogin ''Username: ''
            (facing [Expired, Expired, Readable (''Command Interface'' @ [CHR 0x0D] @ CRLF)]))
   \<and> \<not> fst (replyLogin ''Password: ''
            (snd (replyLogin ''Username: ''
              (facing [Expired, Expired, Readable (''Command Interface'' @ [CHR 0x0D] @ CRLF)]))))
   \<and> fst (login
            (facing [Expired, Expired, Readable (''Command Interface'' @ [CHR 0x0D] @ CRLF)]))
   \<and> writes (trace (snd (login
            (facing [Expired, Expired, Readable (''Command Interface'' @ [CHR 0x0D] @ CRLF)]))))
       = []"
  by (simp add: driver_eval login_def replyLogin_def)

section \<open>The validators\<close>

text \<open>For every value other than a NaN the setters do what the validated ranges say.\<close>

lemma setSalinity_law:
  "v \<noteq> NaN \<Longrightarrow> setSalinity v s = (if fp_within 0 50 v then s\<lparr>m_salinity := v\<rparr> else s)"
  by (cases v) (auto simp: setSalinity_def)

lemma setSamplingRate_law:
  "v \<noteq> NaN \<Longrightarrow>
     setSamplingRate v s = (if fp_within 1 8 v then s\<lparr>m_sampling_rate := v\<rparr> else s)"
  by (cases v) (auto simp: setSamplingRate_def)

text \<open>
  Claim C6, at an input where the code departs from it. A NaN is in neither range, since
  every comparison with it is false; for the same reason neither guard rejects it, and
  both setters store it over the default.
\<close>

theorem validators_store_nan:
  "\<not> fp_within 0 50 NaN
   \<and> m_salinity (facing []) = Fin 35
   \<and> m_salinity (setSalinity NaN (facing [])) = NaN
   \<and> \<not> fp_within 1 8 NaN
   \<and> m_sampling_rate (facing []) = Fin 5
   \<and> m_sampling_rate (setSamplingRate NaN (facing [])) = NaN"
  by (simp add: setSalinity_def driver_eval)

end
